theory Spec2Isabelle
  imports Complex_Main
begin

section \<open>The flight map's route geometry\<close>

text \<open>
  The map module draws a flight as a great-circle arc (\<open>generateArc\<close>) cut into
  polyline segments at the antimeridian (\<open>handleAntimeridian\<close>). A point is the
  JavaScript array \<open>[lat, lng]\<close>, in degrees; it is modelled as a pair, so that
  \<open>point[0]\<close> is \<open>fst\<close> and \<open>point[1]\<close> is \<open>snd\<close>. A JavaScript number is
  modelled as the real number it stands for. In \<open>handleAntimeridian\<close> the one
  operation that rounds, the subtraction, takes its rounding as a parameter. In
  \<open>generateArc\<close> the arithmetic is exact, and rounding is outside the model.
\<close>

type_synonym point = "real \<times> real"

subsection \<open>handleAntimeridian\<close>

text \<open>
  The longitudes are doubles, and \<open>point[1] - nextPoint[1]\<close> is the subtraction of
  doubles: the exact difference, rounded to a double. The rounding is the parameter
  \<open>rnd\<close> of the model, so that what is proved of the loop holds for the rounding of
  the machine as for exact arithmetic (\<open>rnd\<close> the identity). \<open>Math.abs\<close> and the
  comparison with \<open>180\<close> are exact on doubles.

  The function below is the body of the loop
  \<open>for (let i = 0; i < points.length; i++)\<close>, with the two arrays it mutates,
  \<open>segments\<close> and \<open>currentSegment\<close>, passed as state and returned when the loop
  ends. \<open>Array.push\<close> appends at the end. Inside the loop \<open>i < points.length\<close>
  holds, so \<open>points.length - 1\<close> is not negative and both reads \<open>points[i]\<close> and
  \<open>points[i + 1]\<close> are in range where they happen.
\<close>

function handleAntimeridian_loop ::
  "(real \<Rightarrow> real) \<Rightarrow> point list \<Rightarrow> nat \<Rightarrow> point list list \<Rightarrow> point list
     \<Rightarrow> point list list \<times> point list"
where
  "handleAntimeridian_loop rnd points i segments currentSegment =
     (if i < length points then
        (let point = points ! i;
             currentSegment = currentSegment @ [point]
         in if i < length points - 1 then
              (let nextPoint = points ! (i + 1);
                   lngDiff = \<bar>rnd (snd point - snd nextPoint)\<bar>
               in if lngDiff > 180
                  then handleAntimeridian_loop rnd points (i + 1) (segments @ [currentSegment]) []
                  else handleAntimeridian_loop rnd points (i + 1) segments currentSegment)
            else handleAntimeridian_loop rnd points (i + 1) segments currentSegment)
      else (segments, currentSegment))"
  by pat_completeness auto
termination
  by (relation "measure (\<lambda>(rnd, points, i, segments, currentSegment). length points - i)") auto

definition handleAntimeridian :: "(real \<Rightarrow> real) \<Rightarrow> point list \<Rightarrow> point list list" where
  "handleAntimeridian rnd points =
     (let (segments, currentSegment) = handleAntimeridian_loop rnd points 0 [] []
      in if length currentSegment > 0 then segments @ [currentSegment] else segments)"

text \<open>
  The properties of a segment that the specification names: whether the longitudes of
  two points differ by more than 180 degrees in absolute value, the difference being
  computed as the loop computes it, and whether a sequence of points has no such
  adjacent pair. With the identity for \<open>rnd\<close> the difference is the exact one.
\<close>

definition crosses :: "(real \<Rightarrow> real) \<Rightarrow> point \<Rightarrow> point \<Rightarrow> bool" where
  "crosses rnd p q = (\<bar>rnd (snd p - snd q)\<bar> > 180)"

fun noCrossing :: "(real \<Rightarrow> real) \<Rightarrow> point list \<Rightarrow> bool" where
  "noCrossing rnd [] = True"
| "noCrossing rnd [p] = True"
| "noCrossing rnd (p # q # ps) = (\<not> crosses rnd p q \<and> noCrossing rnd (q # ps))"

fun crossings :: "(real \<Rightarrow> real) \<Rightarrow> point list \<Rightarrow> nat" where
  "crossings rnd [] = 0"
| "crossings rnd [p] = 0"
| "crossings rnd (p # q # ps) = (if crosses rnd p q then 1 else 0) + crossings rnd (q # ps)"

text \<open>What the function returns from a state of the loop: the last, open segment is
  closed when it holds a point.\<close>

definition finish :: "point list list \<times> point list \<Rightarrow> point list list" where
  "finish st = (if length (snd st) > 0 then fst st @ [snd st] else fst st)"

text \<open>
  The rounding of the machine: a real number other than \<open>0\<close>, whose absolute value
  lies between two to the power \<open>e\<close> and two to the power \<open>e + 1\<close>, is rounded to
  the nearest multiple of two to the power \<open>e - 52\<close>, and a tie goes to the even
  multiple. (The exponent is not bounded here: the doubles overflow far beyond any
  difference of longitudes, and a difference of two doubles that is too small for a
  normal double is itself a double and is not rounded, here as there.)
\<close>

definition roundEven :: "real \<Rightarrow> int" where
  "roundEven s =
     (let n = \<lfloor>s\<rfloor>; r = s - of_int n
      in if r < 1 / 2 then n
         else if r > 1 / 2 then n + 1
         else if even n then n else n + 1)"

definition roundDouble :: "real \<Rightarrow> real" where
  "roundDouble t =
     (if t = 0 then 0
      else (let e = \<lfloor>log 2 \<bar>t\<bar>\<rfloor>;
                q = 2 powr (of_int e - 52)
            in q * of_int (roundEven (t / q))))"

subsection \<open>generateArc\<close>

text \<open>
  \<open>Math.sin\<close>, \<open>Math.cos\<close>, \<open>Math.asin\<close> and \<open>Math.sqrt\<close> are the real
  functions, \<open>Math.PI\<close> is \<open>\<pi>\<close> and \<open>Math.pow(s, 2)\<close> is the square. The
  doubles of JavaScript differ from this exact arithmetic where a cosine or a sine is
  exactly \<open>0\<close> here and a rounding error there: at latitude \<open>90\<close> or \<open>-90\<close>,
  at longitude \<open>-180\<close>, and at and near antipodal points, where \<open>sin d\<close> is \<open>0\<close>
  or small here, a number of the order of \<open>1e-16\<close> there, and the quotient by \<open>0\<close>
  is left to the convention of the logic. What is proved below of the length of the path,
  of the degenerate branch and of the range of the points does not depend on that.
\<close>

text \<open>
  \<open>Math.atan2(y, x)\<close>: the angle of the point \<open>(x, y)\<close> of the plane, in
  \<open>(-\<pi>, \<pi>]\<close>, and \<open>0\<close> at the origin. (The signed zeros of JavaScript, which
  decide between \<open>\<pi>\<close> and \<open>-\<pi>\<close> on the negative x axis, are not in the model.)
\<close>

definition atan2 :: "real \<Rightarrow> real \<Rightarrow> real" where
  "atan2 y x =
     (if x > 0 then arctan (y / x)
      else if x < 0 then (if y \<ge> 0 then arctan (y / x) + pi else arctan (y / x) - pi)
      else if y > 0 then pi / 2
      else if y < 0 then - (pi / 2)
      else 0)"

text \<open>
  The central angle \<open>d\<close> between two points given in radians, by the haversine
  formula; the source computes it in every iteration of the loop.
\<close>

definition centralAngle :: "real \<Rightarrow> real \<Rightarrow> real \<Rightarrow> real \<Rightarrow> real" where
  "centralAngle lat1 lng1 lat2 lng2 =
     2 * arcsin (sqrt ((sin ((lat1 - lat2) / 2))\<^sup>2
                       + cos lat1 * cos lat2 * (sin ((lng1 - lng2) / 2))\<^sup>2))"

text \<open>
  The body of the loop \<open>for (let i = 0; i <= numPoints; i++)\<close>: the point pushed
  in iteration \<open>i\<close>. When \<open>d === 0\<close> the start point is pushed and the iteration
  ends (\<open>continue\<close>) before anything is divided by \<open>Math.sin(d)\<close>.
\<close>

definition arcPoint :: "point \<Rightarrow> point \<Rightarrow> nat \<Rightarrow> nat \<Rightarrow> point" where
  "arcPoint start end' numPoints i =
     (let lat1 = fst start * pi / 180;
          lng1 = snd start * pi / 180;
          lat2 = fst end' * pi / 180;
          lng2 = snd end' * pi / 180;
          f = real i / real numPoints;
          d = centralAngle lat1 lng1 lat2 lng2
      in if d = 0 then (fst start, snd start)
         else
           (let A = sin ((1 - f) * d) / sin d;
                B = sin (f * d) / sin d;
                x = A * cos lat1 * cos lng1 + B * cos lat2 * cos lng2;
                y = A * cos lat1 * sin lng1 + B * cos lat2 * sin lng2;
                z = A * sin lat1 + B * sin lat2;
                lat = atan2 z (sqrt (x * x + y * y)) * 180 / pi;
                lng = atan2 y x * 180 / pi
            in (lat, lng)))"

function generateArc_loop :: "point \<Rightarrow> point \<Rightarrow> nat \<Rightarrow> nat \<Rightarrow> point list \<Rightarrow> point list" where
  "generateArc_loop start end' numPoints i points =
     (if i \<le> numPoints
      then generateArc_loop start end' numPoints (i + 1)
             (points @ [arcPoint start end' numPoints i])
      else points)"
  by pat_completeness auto
termination
  by (relation "measure (\<lambda>(start, end', numPoints, i, points). numPoints + 1 - i)") auto

definition generateArc :: "point \<Rightarrow> point \<Rightarrow> nat \<Rightarrow> point list" where
  "generateArc start end' numPoints = generateArc_loop start end' numPoints 0 []"

text \<open>The argument of the square root in \<open>centralAngle\<close>.\<close>

definition hav :: "real \<Rightarrow> real \<Rightarrow> real \<Rightarrow> real \<Rightarrow> real" where
  "hav lat1 lng1 lat2 lng2 =
     (sin ((lat1 - lat2) / 2))\<^sup>2 + cos lat1 * cos lat2 * (sin ((lng1 - lng2) / 2))\<^sup>2"

text \<open>A valid point: latitude in \<open>[-90, 90]\<close> and longitude in \<open>[-180, 180]\<close>.\<close>

definition validPoint :: "point \<Rightarrow> bool" where
  "validPoint p = (- 90 \<le> fst p \<and> fst p \<le> 90 \<and> - 180 \<le> snd p \<and> snd p \<le> 180)"

text \<open>
  The geometry the specification speaks of. A point given by latitude and longitude in
  degrees is a unit vector of space; the angle between two points, seen from the centre
  of the sphere, is their great-circle distance. Two points are antipodal when their
  vectors are opposite. A point \<open>p\<close> lies on the minor great-circle arc from \<open>a\<close>
  to \<open>b\<close> when going from \<open>a\<close> to \<open>p\<close> and on to \<open>b\<close> is no longer than
  going from \<open>a\<close> to \<open>b\<close>: the shortest path between two points of the sphere
  that are not antipodal is that arc, and no other.
\<close>

definition unitVector :: "point \<Rightarrow> real \<times> real \<times> real" where
  "unitVector p =
     (let lat = fst p * pi / 180; lng = snd p * pi / 180
      in (cos lat * cos lng, cos lat * sin lng, sin lat))"

fun dot :: "real \<times> real \<times> real \<Rightarrow> real \<times> real \<times> real \<Rightarrow> real" where
  "dot (x1, y1, z1) (x2, y2, z2) = x1 * x2 + y1 * y2 + z1 * z2"

definition angularDistance :: "point \<Rightarrow> point \<Rightarrow> real" where
  "angularDistance p q = arccos (dot (unitVector p) (unitVector q))"

definition antipodal :: "point \<Rightarrow> point \<Rightarrow> bool" where
  "antipodal p q = (dot (unitVector p) (unitVector q) = - 1)"

definition onMinorArc :: "point \<Rightarrow> point \<Rightarrow> point \<Rightarrow> bool" where
  "onMinorArc a b p = (angularDistance a p + angularDistance p b = angularDistance a b)"

section \<open>Segments at the antimeridian\<close>

lemma handleAntimeridian_finish:
  "handleAntimeridian rnd points = finish (handleAntimeridian_loop rnd points 0 [] [])"
  by (simp add: handleAntimeridian_def finish_def split: prod.split)

declare handleAntimeridian_loop.simps [simp del]

lemma loop_concat:
  "concat (finish (handleAntimeridian_loop rnd points i segments currentSegment))
     = concat segments @ currentSegment @ drop i points"
proof (induction rnd points i segments currentSegment rule: handleAntimeridian_loop.induct)
  case (1 rnd points i segments currentSegment)
  show ?case
  proof (cases "i < length points")
    case False
    then show ?thesis
      by (subst handleAntimeridian_loop.simps) (simp add: finish_def)
  next
    case True
    then have d: "drop i points = points ! i # drop (Suc i) points"
      by (simp add: Cons_nth_drop_Suc)
    show ?thesis
      using True "1.IH" [OF True refl refl]
      by (subst handleAntimeridian_loop.simps) (simp add: d Let_def)
  qed
qed

text \<open>
  C1. For every non-empty sequence of points, concatenating the segments returned by
  \<open>handleAntimeridian\<close>, in order, gives back the input sequence: no point is
  dropped, duplicated or moved. This does not depend on how the difference is rounded.
\<close>

theorem handleAntimeridian_concat:
  "points \<noteq> [] \<Longrightarrow> concat (handleAntimeridian rnd points) = points"
  by (simp add: handleAntimeridian_finish loop_concat)

theorem handleAntimeridian_concat_witness:
  "[(0, 170), (0, -170), (1, -160)] \<noteq> ([] :: point list)
   \<and> concat (handleAntimeridian (\<lambda>t. t) [(0, 170), (0, -170), (1, -160)])
       = [(0, 170), (0, -170), (1, -160)]"
  using handleAntimeridian_concat [of "[(0, 170), (0, -170), (1, -160)]" "\<lambda>t. t"] by simp



lemma loop_length:
  "length (finish (handleAntimeridian_loop rnd points i segments currentSegment))
     = length segments + crossings rnd (drop i points)
       + (if currentSegment = [] \<and> length points \<le> i then 0 else 1)"
proof (induction rnd points i segments currentSegment rule: handleAntimeridian_loop.induct)
  case (1 rnd points i segments currentSegment)
  show ?case
  proof (cases "i < length points")
    case False
    then show ?thesis
      by (subst handleAntimeridian_loop.simps) (simp add: finish_def)
  next
    case True
    then have d: "drop i points = points ! i # drop (Suc i) points"
      by (simp add: Cons_nth_drop_Suc)
    show ?thesis
    proof (cases "i < length points - 1")
      case False
      then have e: "drop (Suc i) points = []"
        using True by simp
      show ?thesis
        using True False "1.IH"(3) [OF True refl refl False]
        by (subst handleAntimeridian_loop.simps) (simp add: d e Let_def)
    next
      case last: True
      then have e: "drop (Suc i) points = points ! (i + 1) # drop (Suc (Suc i)) points"
        by (simp add: Cons_nth_drop_Suc)
      show ?thesis
      proof (cases "\<bar>rnd (snd (points ! i) - snd (points ! (i + 1)))\<bar> > 180")
        case True
        then show ?thesis
          using \<open>i < length points\<close> last
            "1.IH"(1) [OF \<open>i < length points\<close> refl refl last refl refl True]
          by (subst handleAntimeridian_loop.simps) (simp add: d e Let_def crosses_def)
      next
        case False
        then show ?thesis
          using \<open>i < length points\<close> last
            "1.IH"(2) [OF \<open>i < length points\<close> refl refl last refl refl False]
          by (subst handleAntimeridian_loop.simps) (simp add: d e Let_def crosses_def)
      qed
    qed
  qed
qed

lemma handleAntimeridian_length:
  "points \<noteq> [] \<Longrightarrow> length (handleAntimeridian rnd points) = Suc (crossings rnd points)"
  by (simp add: handleAntimeridian_finish loop_length)

lemma noCrossing_crossings: "noCrossing rnd ps = (crossings rnd ps = 0)"
  by (induction rnd ps rule: noCrossing.induct) auto

text \<open>
  The rounding to the nearest double does not take a number of absolute value at most
  \<open>180\<close> beyond \<open>180\<close>, which is a double.
\<close>

lemma roundEven_le: "s \<le> of_int N \<Longrightarrow> roundEven s \<le> N"
proof -
  assume s: "s \<le> of_int N"
  then have f: "\<lfloor>s\<rfloor> \<le> N"
    by (simp add: floor_le_iff)
  show ?thesis
  proof (cases "\<lfloor>s\<rfloor> = N")
    case True
    then have "s = of_int N"
      using s of_int_floor_le [of s] by linarith
    then show ?thesis
      by (simp add: roundEven_def)
  next
    case False
    then have "\<lfloor>s\<rfloor> + 1 \<le> N"
      using f by linarith
    then show ?thesis
      using f by (simp add: roundEven_def Let_def)
  qed
qed

lemma roundEven_ge: "of_int N \<le> s \<Longrightarrow> N \<le> roundEven s"
proof -
  assume "of_int N \<le> s"
  then have "N \<le> \<lfloor>s\<rfloor>"
    by (simp add: le_floor_iff)
  then show ?thesis
    by (simp add: roundEven_def Let_def)
qed

lemma roundDouble_le_180:
  assumes "\<bar>t\<bar> \<le> 180"
  shows "\<bar>roundDouble t\<bar> \<le> 180"
proof (cases "t = 0")
  case True
  then show ?thesis
    by (simp add: roundDouble_def)
next
  case False
  define e where "e = \<lfloor>log 2 \<bar>t\<bar>\<rfloor>"
  define q :: real where "q = 2 powr (of_int e - 52)"
  define k where "k = nat (52 - e)"
  have "\<bar>t\<bar> < (2::real) powr 8"
    using assms by simp
  then have "log 2 \<bar>t\<bar> < 8"
    using False by (simp add: log_less_iff)
  then have "e < 8"
    by (simp add: e_def floor_less_iff)
  then have k: "of_int e - 52 = - real k"
    by (simp add: k_def)
  have q: "q = 1 / 2 ^ k"
    by (simp add: q_def k powr_minus powr_realpow divide_inverse)
  have qpos: "0 < q"
    by (simp add: q)
  define N :: int where "N = 180 * 2 ^ k"
  have N: "180 / q = of_int N"
    by (simp add: q N_def)
  have b: "t / q \<le> of_int N" "of_int (- N) \<le> t / q"
    using assms qpos by (simp_all add: N [symmetric] divide_right_mono abs_le_iff pos_le_divide_eq pos_divide_le_eq)
  have "roundEven (t / q) \<le> N" "- N \<le> roundEven (t / q)"
    by (rule roundEven_le [OF b(1)], rule roundEven_ge [OF b(2)])
  then have "\<bar>real_of_int (roundEven (t / q))\<bar> \<le> of_int N"
    by linarith
  then have "q * \<bar>real_of_int (roundEven (t / q))\<bar> \<le> q * of_int N"
    using qpos by (simp add: mult_left_mono)
  also have "\<dots> = 180"
    using qpos N by (simp add: field_simps)
  finally show ?thesis
    using False qpos by (simp add: roundDouble_def Let_def e_def [symmetric] q_def [symmetric] abs_mult)
qed




text \<open>
  A rounding that is monotone and leaves \<open>180\<close> and \<open>-180\<close> as they are does not
  take a difference of at most 180 in absolute value beyond 180. Under such a rounding a
  sequence with no crossing in exact arithmetic has no crossing as the loop computes it.
\<close>

lemma noCrossing_rounded:
  assumes "\<And>t. \<bar>t\<bar> \<le> 180 \<Longrightarrow> \<bar>rnd t\<bar> \<le> 180"
    and "noCrossing (\<lambda>t. t) points"
  shows "noCrossing rnd points"
  using assms(2)
proof (induction points rule: induct_list012)
  case (3 p q ps)
  then have "\<bar>snd p - snd q\<bar> \<le> 180"
    by (simp add: crosses_def)
  then have "\<bar>rnd (snd p - snd q)\<bar> \<le> 180"
    by (rule assms(1))
  then show ?case
    using 3 by (simp add: crosses_def)
qed simp_all


text \<open>
  C7. For every non-empty sequence of points, \<open>handleAntimeridian\<close> returns exactly
  one segment unless some consecutive pair of the input differs in longitude by more than
  180 degrees in absolute value. The difference of the hypothesis is the exact one; the
  loop computes it rounded, by any rounding that does not take a difference of at most
  180 beyond 180, as the rounding to the nearest double does.
\<close>

theorem handleAntimeridian_one_segment:
  assumes "\<And>t. \<bar>t\<bar> \<le> 180 \<Longrightarrow> \<bar>rnd t\<bar> \<le> 180"
    and "points \<noteq> []"
    and "noCrossing (\<lambda>t. t) points"
  shows "length (handleAntimeridian rnd points) = 1"
proof -
  have "noCrossing rnd points"
    using assms(1,3) by (rule noCrossing_rounded)
  then show ?thesis
    using assms(2) by (simp add: handleAntimeridian_length noCrossing_crossings)
qed

theorem handleAntimeridian_one_segment_witness:
  "[(35, 135), (40, 150)] \<noteq> ([] :: point list)
   \<and> noCrossing (\<lambda>t. t) [(35, 135), (40, 150)]
   \<and> length (handleAntimeridian roundDouble [(35, 135), (40, 150)]) = 1"
proof -
  have nc: "noCrossing (\<lambda>t. t) [(35, 135), (40, 150)]"
    by (simp add: crosses_def)
  show ?thesis
    using nc
      handleAntimeridian_one_segment [of roundDouble "[(35, 135), (40, 150)]",
        OF roundDouble_le_180]
    by simp
qed




section \<open>The great-circle arc\<close>

declare generateArc_loop.simps [simp del]

lemma generateArc_loop_map:
  "generateArc_loop start end' numPoints i points
     = points @ map (arcPoint start end' numPoints) [i ..< numPoints + 1]"
proof (induction start end' numPoints i points rule: generateArc_loop.induct)
  case (1 start end' numPoints i points)
  show ?case
  proof (cases "i \<le> numPoints")
    case True
    then have "[i ..< numPoints + 1] = i # [i + 1 ..< numPoints + 1]"
      by (simp add: upt_conv_Cons)
    then show ?thesis
      using True "1.IH" [OF True] by (subst generateArc_loop.simps) simp
  next
    case False
    then show ?thesis
      by (subst generateArc_loop.simps) simp
  qed
qed

lemma generateArc_map:
  "generateArc start end' numPoints = map (arcPoint start end' numPoints) [0 ..< numPoints + 1]"
  by (simp add: generateArc_def generateArc_loop_map)

text \<open>
  C6. The path returned by \<open>generateArc\<close> for \<open>numPoints = n\<close> has exactly
  \<open>n + 1\<close> points, whatever the two end points are.
\<close>

theorem generateArc_length:
  "length (generateArc start end' n) = n + 1"
  by (simp add: generateArc_map)

lemma centralAngle_same: "centralAngle lat lng lat lng = 0"
  by (simp add: centralAngle_def)

lemma arcPoint_same: "arcPoint start start n = (\<lambda>i. start)"
  by (rule ext) (simp add: arcPoint_def centralAngle_same)

text \<open>
  C5. When the end point is the start point, the central angle is exactly \<open>0\<close>, so
  every iteration takes the branch that pushes the start point and divides nothing by
  \<open>sin d\<close>, and \<open>generateArc\<close> returns \<open>n + 1\<close> copies of the start point.
\<close>

theorem generateArc_degenerate:
  "centralAngle (fst start * pi / 180) (snd start * pi / 180)
                (fst start * pi / 180) (snd start * pi / 180) = 0
   \<and> generateArc start start n = replicate (n + 1) start"
proof -
  have "map (\<lambda>i. start) [0 ..< n + 1] = replicate (n + 1) start"
    by (simp add: map_replicate_const del: upt_Suc replicate_Suc)
  then show ?thesis
    by (simp add: generateArc_map arcPoint_same centralAngle_same del: upt_Suc replicate_Suc)
qed

lemma atan2_bounds: "- pi < atan2 y x \<and> atan2 y x \<le> pi"
proof -
  have a: "- (pi / 2) < arctan (y / x)" "arctan (y / x) < pi / 2"
    by (rule arctan_lbound, rule arctan_ubound)
  have b: "x < 0 \<Longrightarrow> y \<ge> 0 \<Longrightarrow> arctan (y / x) \<le> 0"
    by (simp add: divide_nonneg_neg arctan_le_zero_iff)
  have c: "x < 0 \<Longrightarrow> y < 0 \<Longrightarrow> 0 < arctan (y / x)"
    by (simp add: divide_neg_neg zero_less_arctan_iff)
  show ?thesis
    using a b c pi_gt_zero by (auto simp add: atan2_def)
qed

lemma atan2_bounds_right:
  assumes "0 \<le> x"
  shows "- (pi / 2) \<le> atan2 y x \<and> atan2 y x \<le> pi / 2"
proof -
  have a: "- (pi / 2) < arctan (y / x)" "arctan (y / x) < pi / 2"
    by (rule arctan_lbound, rule arctan_ubound)
  show ?thesis
    using a assms pi_gt_zero by (auto simp add: atan2_def)
qed

lemma degrees_bounds:
  assumes "- (pi / c) \<le> t" "t \<le> pi / c" "0 < c"
  shows "- (180 / c) \<le> t * 180 / pi \<and> t * 180 / pi \<le> 180 / c"
  using assms pi_gt_zero by (simp add: field_simps)

lemma arcPoint_valid:
  assumes "validPoint start"
  shows "validPoint (arcPoint start end' n i)"
proof -
  have lat: "- 90 \<le> atan2 z (sqrt r) * 180 / pi \<and> atan2 z (sqrt r) * 180 / pi \<le> 90"
    if "0 \<le> r" for z r
    using degrees_bounds [of 2 "atan2 z (sqrt r)"] atan2_bounds_right [of "sqrt r" z] that
    by simp
  have lng: "- 180 \<le> atan2 y x * 180 / pi \<and> atan2 y x * 180 / pi \<le> 180" for y x
    using degrees_bounds [of 1 "atan2 y x"] atan2_bounds [of y x] by simp
  have sq: "0 \<le> x * x + y * y" for x y :: real
    by simp
  show ?thesis
    using assms lat [OF sq] lng
    by (simp add: arcPoint_def Let_def validPoint_def)
qed

text \<open>
  C10. When the start point is valid, every point of the path returned by
  \<open>generateArc\<close> is valid: its latitude is in \<open>[-90, 90]\<close>, being the \<open>atan2\<close> of
  \<open>z\<close> and a square root, in degrees, and its longitude is in \<open>[-180, 180]\<close>, the
  range of \<open>atan2\<close> in degrees; in the degenerate branch the point is the start point.
  The proof uses the range of \<open>atan2\<close> only, not the values of the weights \<open>A\<close> and
  \<open>B\<close>.
\<close>

theorem generateArc_valid:
  "validPoint start \<Longrightarrow> \<forall>p \<in> set (generateArc start end' n). validPoint p"
  by (auto simp add: generateArc_map arcPoint_valid simp del: upt_Suc)

theorem generateArc_valid_witness:
  "validPoint (35, 135)
   \<and> generateArc (35, 135) (33, - 117) 100 ! 50 \<in> set (generateArc (35, 135) (33, - 117) 100)
   \<and> validPoint (generateArc (35, 135) (33, - 117) 100 ! 50)"
proof -
  have v: "validPoint (35, 135)"
    by (simp add: validPoint_def)
  have m: "generateArc (35, 135) (33, - 117) 100 ! 50 \<in> set (generateArc (35, 135) (33, - 117) 100)"
    by (rule nth_mem) (simp add: generateArc_map)
  show ?thesis
    using v m generateArc_valid [OF v, of "(33, - 117)" 100] by blast
qed

subsection \<open>The arc in exact arithmetic\<close>

text \<open>
  What follows is about exact arithmetic only, and is not a statement about the doubles.
  In exact arithmetic the haversine argument is in \<open>[0, 1]\<close> for all latitudes and
  longitudes, so the central angle is in \<open>[0, \<pi>]\<close> and its cosine is the inner
  product of the two unit vectors: the central angle is the angular distance. For points
  that are not antipodal the samples are then spaced evenly in angle along the minor arc.
  The doubles lose this near the antipode, where the central angle is rounded to
  \<open>Math.PI\<close> and the weights are quotients by \<open>Math.sin(Math.PI)\<close>, a number of
  the order of \<open>1e-16\<close>: from \<open>(0, 0)\<close> to \<open>(5e-324, 180)\<close> the code goes
  along the equator, through \<open>(0, 90)\<close>, and the minor arc goes over the pole.
\<close>

lemma sin_half_sq: "(sin (t / 2))\<^sup>2 = (1 - cos t) / 2" for t :: real
  using cos_double_sin [of "t / 2"] by simp

lemma hav_range: "0 \<le> hav lat1 lng1 lat2 lng2 \<and> hav lat1 lng1 lat2 lng2 \<le> 1"
proof -
  define Q where "Q = (sin ((lng1 - lng2) / 2))\<^sup>2"
  define u where "u = cos (lat1 - lat2)"
  define w where "w = cos (lat1 + lat2)"
  have Q: "0 \<le> Q" "Q \<le> 1"
    by (simp_all add: Q_def abs_square_le_1)
  have u: "- 1 \<le> u" "u \<le> 1" and w: "- 1 \<le> w" "w \<le> 1"
    by (simp_all add: u_def w_def)
  have cc: "cos lat1 * cos lat2 = (u + w) / 2"
    by (simp add: u_def w_def cos_diff cos_add)
  have P: "(sin ((lat1 - lat2) / 2))\<^sup>2 = (1 - u) / 2"
    by (simp add: sin_half_sq u_def)
  have "hav lat1 lng1 lat2 lng2 = (1 - u) / 2 + (u + w) / 2 * Q"
    unfolding hav_def P cc Q_def ..
  then have h: "hav lat1 lng1 lat2 lng2 = ((1 - Q) * (1 - u) + Q * (1 + w)) / 2"
    by (simp add: field_simps)
  have h': "1 - hav lat1 lng1 lat2 lng2 = ((1 - Q) * (1 + u) + Q * (1 - w)) / 2"
    by (simp add: h field_simps)
  have "0 \<le> (1 - Q) * (1 - u) + Q * (1 + w)" "0 \<le> (1 - Q) * (1 + u) + Q * (1 - w)"
    using Q u w by simp_all
  then show ?thesis
    using h h' by simp
qed

lemma centralAngle_hav:
  "centralAngle lat1 lng1 lat2 lng2 = 2 * arcsin (sqrt (hav lat1 lng1 lat2 lng2))"
  by (simp add: centralAngle_def hav_def)

lemma centralAngle_range:
  "0 \<le> centralAngle lat1 lng1 lat2 lng2 \<and> centralAngle lat1 lng1 lat2 lng2 \<le> pi"
proof -
  let ?s = "sqrt (hav lat1 lng1 lat2 lng2)"
  have s: "0 \<le> ?s" "?s \<le> 1"
    using hav_range [of lat1 lng1 lat2 lng2] by simp_all
  then have s': "- 1 \<le> ?s"
    by linarith
  have "0 \<le> arcsin ?s"
    using s by (simp add: arcsin_nonneg)
  moreover have "arcsin ?s \<le> pi / 2"
    using arcsin_bounded [OF s' s(2)] by blast
  ultimately show ?thesis
    by (simp add: centralAngle_hav)
qed

lemma cos_centralAngle:
  "cos (centralAngle lat1 lng1 lat2 lng2) = 1 - 2 * hav lat1 lng1 lat2 lng2"
proof -
  let ?s = "sqrt (hav lat1 lng1 lat2 lng2)"
  have s: "0 \<le> hav lat1 lng1 lat2 lng2" "?s \<le> 1"
    using hav_range [of lat1 lng1 lat2 lng2] by simp_all
  have "0 \<le> ?s"
    using s(1) by simp
  then have s': "- 1 \<le> ?s"
    by linarith
  have "cos (2 * arcsin ?s) = 1 - 2 * (sin (arcsin ?s))\<^sup>2"
    by (rule cos_double_sin)
  also have "\<dots> = 1 - 2 * hav lat1 lng1 lat2 lng2"
    using s s' by simp
  finally show ?thesis
    by (simp add: centralAngle_hav)
qed

lemma dot_hav:
  "cos lat1 * cos lng1 * (cos lat2 * cos lng2) + cos lat1 * sin lng1 * (cos lat2 * sin lng2)
     + sin lat1 * sin lat2 = 1 - 2 * hav lat1 lng1 lat2 lng2"
proof -
  have "cos lat1 * cos lng1 * (cos lat2 * cos lng2) + cos lat1 * sin lng1 * (cos lat2 * sin lng2)
          + sin lat1 * sin lat2
        = cos lat1 * cos lat2 * cos (lng1 - lng2) + sin lat1 * sin lat2"
    by (simp add: cos_diff algebra_simps)
  also have "\<dots> = cos (lat1 - lat2) - cos lat1 * cos lat2 * (1 - cos (lng1 - lng2))"
    by (simp add: cos_diff algebra_simps)
  also have "\<dots> = 1 - 2 * hav lat1 lng1 lat2 lng2"
    by (simp add: hav_def sin_half_sq field_simps)
  finally show ?thesis .
qed


lemma slerp_weights:
  fixes d u w :: real
  assumes "sin d \<noteq> 0" "u + w = d"
  defines "A \<equiv> sin w / sin d" and "B \<equiv> sin u / sin d"
  shows "A + B * cos d = cos u" and "A * cos d + B = cos w"
proof -
  have w: "w = d - u" and u: "u = d - w"
    using assms(2) by simp_all
  have "sin w + sin u * cos d = sin d * cos u"
    by (simp add: w sin_diff)
  then have "(sin w + sin u * cos d) / sin d = cos u"
    using assms(1) by simp
  then show "A + B * cos d = cos u"
    by (simp add: A_def B_def add_divide_distrib)
  have "sin w * cos d + sin u = sin d * cos w"
    by (simp add: u sin_diff)
  then have "(sin w * cos d + sin u) / sin d = cos w"
    using assms(1) by simp
  then show "A * cos d + B = cos w"
    by (simp add: A_def B_def add_divide_distrib)
qed

lemma slerp_norm:
  fixes d u w :: real
  assumes "sin d \<noteq> 0" "u + w = d"
  defines "A \<equiv> sin w / sin d" and "B \<equiv> sin u / sin d"
  shows "A * A + 2 * A * B * cos d + B * B = 1"
proof -
  have 1: "A + B * cos d = cos u" and 2: "A * cos d + B = cos w"
    unfolding A_def B_def by (rule slerp_weights [OF assms(1,2)])+
  have "A * A + 2 * A * B * cos d + B * B = A * (A + B * cos d) + B * (A * cos d + B)"
    by (simp add: algebra_simps)
  also have "\<dots> = (sin w * cos u + sin u * cos w) / sin d"
    unfolding 1 2 by (simp add: A_def B_def add_divide_distrib)
  also have "\<dots> = sin (u + w) / sin d"
    by (simp add: sin_add)
  also have "\<dots> = 1"
    using assms(1,2) by simp
  finally show ?thesis .
qed

lemma atan2_cos_sin:
  assumes "x \<noteq> 0 \<or> y \<noteq> 0"
  shows "cos (atan2 y x) = x / sqrt (x * x + y * y)"
    and "sin (atan2 y x) = y / sqrt (x * x + y * y)"
proof -
  have r: "sqrt (1 + (y / x)\<^sup>2) = sqrt (x * x + y * y) / \<bar>x\<bar>" if "x \<noteq> 0"
  proof -
    have "1 + (y / x)\<^sup>2 = (x * x + y * y) / x\<^sup>2"
      using that by (simp add: field_simps power2_eq_square)
    then show ?thesis
      by (simp add: real_sqrt_divide)
  qed
  have pos: "0 < sqrt (x * x + y * y)" if "x \<noteq> 0"
  proof -
    have "0 < x * x"
      using that zero_less_power2 [of x] unfolding power2_eq_square by blast
    moreover have "0 \<le> y * y"
      by simp
    ultimately have "0 < x * x + y * y"
      by linarith
    then show ?thesis
      by simp
  qed
  consider "0 < x" | "x < 0" "0 \<le> y" | "x < 0" "y < 0" | "x = 0" "0 < y" | "x = 0" "y < 0"
    using assms by linarith
  then have "cos (atan2 y x) = x / sqrt (x * x + y * y) \<and> sin (atan2 y x) = y / sqrt (x * x + y * y)"
  proof cases
    case 1
    then show ?thesis
      using r pos by (simp add: atan2_def cos_arctan sin_arctan)
  next
    case 2
    then show ?thesis
      using r pos by (simp add: atan2_def cos_arctan sin_arctan)
  next
    case 3
    then show ?thesis
      using r pos by (simp add: atan2_def cos_arctan sin_arctan cos_diff sin_diff)
  next
    case 4
    then show ?thesis
      by (simp add: atan2_def real_sqrt_mult_self)
  next
    case 5
    then show ?thesis
      by (simp add: atan2_def real_sqrt_mult_self)
  qed
  then show "cos (atan2 y x) = x / sqrt (x * x + y * y)"
    and "sin (atan2 y x) = y / sqrt (x * x + y * y)"
    by simp_all
qed


lemma unitVector_atan2:
  assumes "x * x + y * y + z * z = 1"
  shows "unitVector (atan2 z (sqrt (x * x + y * y)) * 180 / pi, atan2 y x * 180 / pi) = (x, y, z)"
proof -
  define r where "r = sqrt (x * x + y * y)"
  have r0: "0 \<le> r"
    by (simp add: r_def)
  have rr: "r * r = x * x + y * y"
    by (simp add: r_def)
  then have rz: "r * r + z * z = 1"
    using assms by simp
  then have "r \<noteq> 0 \<or> z \<noteq> 0"
    by auto
  then have "cos (atan2 z r) = r / sqrt (r * r + z * z)" "sin (atan2 z r) = z / sqrt (r * r + z * z)"
    by (rule atan2_cos_sin)+
  then have lat: "cos (atan2 z r) = r" "sin (atan2 z r) = z"
    by (simp_all add: rz)
  have "r * cos (atan2 y x) = x \<and> r * sin (atan2 y x) = y"
  proof (cases "r = 0")
    case True
    then have "x * x + y * y = 0"
      using rr by simp
    then have "x = 0 \<and> y = 0"
      by (simp add: sum_squares_eq_zero_iff)
    then show ?thesis
      using True by simp
  next
    case False
    then have "x \<noteq> 0 \<or> y \<noteq> 0"
      by (auto simp add: r_def)
    then have "cos (atan2 y x) = x / r" "sin (atan2 y x) = y / r"
      unfolding r_def by (rule atan2_cos_sin)+
    then show ?thesis
      using False by simp
  qed
  then show ?thesis
    using lat by (simp add: unitVector_def Let_def r_def [symmetric])
qed

lemma unitVector_norm: "dot (unitVector p) (unitVector p) = 1"
proof -
  have "cos t * cos s * (cos t * cos s) + cos t * sin s * (cos t * sin s) + sin t * sin t = 1"
    for t s :: real
  proof -
    have "cos t * cos s * (cos t * cos s) + cos t * sin s * (cos t * sin s)
            = cos t * cos t * (cos s * cos s + sin s * sin s)"
      by (simp only: algebra_simps)
    also have "\<dots> = cos t * cos t"
      by (simp only: sin_cos_squared_add3 mult_1_right)
    finally show ?thesis
      by (simp only: sin_cos_squared_add3)
  qed
  then show ?thesis
    by (simp add: unitVector_def Let_def)
qed

lemma dot_unitVector:
  "dot (unitVector p) (unitVector q)
     = cos (centralAngle (fst p * pi / 180) (snd p * pi / 180) (fst q * pi / 180) (snd q * pi / 180))"
  by (simp add: unitVector_def Let_def dot_hav cos_centralAngle)

text \<open>So \<open>arccos\<close> is applied inside its domain in \<open>angularDistance\<close>.\<close>

lemma dot_unitVector_range:
  "- 1 \<le> dot (unitVector p) (unitVector q) \<and> dot (unitVector p) (unitVector q) \<le> 1"
  by (simp add: dot_unitVector)

lemma angularDistance_centralAngle:
  "angularDistance p q
     = centralAngle (fst p * pi / 180) (snd p * pi / 180) (fst q * pi / 180) (snd q * pi / 180)"
  using centralAngle_range by (simp add: angularDistance_def dot_unitVector arccos_cos)

lemma dot_commute: "dot u v = dot v u"
  by (cases u, cases v) (simp add: mult.commute)

lemma dot_combination:
  assumes "dot a a = 1" "dot b b = 1" "dot a b = c"
    and "a = (a1, a2, a3)" "b = (b1, b2, b3)"
    and "v = (A * a1 + B * b1, A * a2 + B * b2, A * a3 + B * b3)"
  shows "dot v v = A * A + 2 * A * B * c + B * B"
    and "dot a v = A + B * c"
    and "dot v b = A * c + B"
proof -
  have "dot v v = A * A * dot a a + 2 * A * B * dot a b + B * B * dot b b"
    by (simp add: assms(4-6) algebra_simps)
  then show "dot v v = A * A + 2 * A * B * c + B * B"
    by (simp add: assms(1-3))
  have "dot a v = A * dot a a + B * dot a b"
    by (simp add: assms(4-6) algebra_simps)
  then show "dot a v = A + B * c"
    by (simp add: assms(1-3))
  have "dot v b = A * dot a b + B * dot b b"
    by (simp add: assms(4-6) algebra_simps)
  then show "dot v b = A * c + B"
    by (simp add: assms(1-3))
qed


lemma arcPoint_distances:
  assumes n: "1 \<le> n" and i: "i \<le> n" and na: "\<not> antipodal start end'"
  shows "angularDistance start (arcPoint start end' n i)
           = real i / real n * angularDistance start end'"
    and "angularDistance (arcPoint start end' n i) end'
           = (1 - real i / real n) * angularDistance start end'"
proof -
  define lat1 where "lat1 = fst start * pi / 180"
  define lng1 where "lng1 = snd start * pi / 180"
  define lat2 where "lat2 = fst end' * pi / 180"
  define lng2 where "lng2 = snd end' * pi / 180"
  define d where "d = centralAngle lat1 lng1 lat2 lng2"
  define f where "f = real i / real n"
  have dist: "angularDistance start end' = d"
    by (simp add: angularDistance_centralAngle d_def lat1_def lng1_def lat2_def lng2_def)
  have d_range: "0 \<le> d" "d \<le> pi"
    using centralAngle_range [of lat1 lng1 lat2 lng2] by (simp_all add: d_def)
  have ab: "dot (unitVector start) (unitVector end') = cos d"
    by (simp add: dot_unitVector d_def lat1_def lng1_def lat2_def lng2_def)
  have "angularDistance start (arcPoint start end' n i) = f * d
        \<and> angularDistance (arcPoint start end' n i) end' = (1 - f) * d"
  proof (cases "d = 0")
    case True
    then have "arcPoint start end' n i = start"
      by (simp add: arcPoint_def d_def lat1_def lng1_def lat2_def lng2_def)
    moreover have "angularDistance start start = 0"
      by (simp add: angularDistance_def unitVector_norm)
    ultimately show ?thesis
      using True dist by simp
  next
    case False
    have "d \<noteq> pi"
      using na ab by (auto simp add: antipodal_def)
    then have "0 < d" "d < pi"
      using False d_range by simp_all
    then have sd: "sin d \<noteq> 0"
      using sin_gt_zero [of d] by simp
    define u where "u = f * d"
    define w where "w = (1 - f) * d"
    define A where "A = sin w / sin d"
    define B where "B = sin u / sin d"
    define x where "x = A * cos lat1 * cos lng1 + B * cos lat2 * cos lng2"
    define y where "y = A * cos lat1 * sin lng1 + B * cos lat2 * sin lng2"
    define z where "z = A * sin lat1 + B * sin lat2"
    have f: "0 \<le> f" "f \<le> 1"
      using n i by (simp_all add: f_def)
    have uw: "u + w = d"
      by (simp add: u_def w_def algebra_simps)
    have u: "0 \<le> u" "u \<le> pi" and w: "0 \<le> w" "w \<le> pi"
    proof -
      show "0 \<le> u" "0 \<le> w"
        using f d_range by (simp_all add: u_def w_def)
      then show "u \<le> pi" "w \<le> pi"
        using uw d_range by linarith+
    qed
    have weights: "A + B * cos d = cos u" "A * cos d + B = cos w"
      "A * A + 2 * A * B * cos d + B * B = 1"
      unfolding A_def B_def
      by (rule slerp_weights [OF sd uw], rule slerp_weights [OF sd uw], rule slerp_norm [OF sd uw])
    have a: "unitVector start = (cos lat1 * cos lng1, cos lat1 * sin lng1, sin lat1)"
      and b: "unitVector end' = (cos lat2 * cos lng2, cos lat2 * sin lng2, sin lat2)"
      by (simp_all add: unitVector_def Let_def lat1_def lng1_def lat2_def lng2_def)
    have v: "(x, y, z) = (A * (cos lat1 * cos lng1) + B * (cos lat2 * cos lng2),
                          A * (cos lat1 * sin lng1) + B * (cos lat2 * sin lng2),
                          A * sin lat1 + B * sin lat2)"
      by (simp add: x_def y_def z_def mult.assoc)
    note dots = dot_combination [OF unitVector_norm unitVector_norm ab a b v]
    have vv: "x * x + y * y + z * z = 1"
      using dots(1) weights(3) by simp
    have p: "arcPoint start end' n i
               = (atan2 z (sqrt (x * x + y * y)) * 180 / pi, atan2 y x * 180 / pi)"
      using False
      by (simp add: arcPoint_def Let_def d_def [symmetric] lat1_def [symmetric]
          lng1_def [symmetric] lat2_def [symmetric] lng2_def [symmetric] f_def [symmetric]
          u_def [symmetric] w_def [symmetric] A_def [symmetric] B_def [symmetric]
          x_def [symmetric] y_def [symmetric] z_def [symmetric])
    have pv: "unitVector (arcPoint start end' n i) = (x, y, z)"
      unfolding p by (rule unitVector_atan2 [OF vv])
    have "angularDistance start (arcPoint start end' n i) = arccos (cos u)"
      by (simp only: angularDistance_def pv dots(2) weights(1))
    moreover have "angularDistance (arcPoint start end' n i) end' = arccos (cos w)"
      by (simp only: angularDistance_def pv dots(3) weights(2))
    ultimately show ?thesis
      using u w by (simp add: arccos_cos u_def w_def)
  qed
  then show "angularDistance start (arcPoint start end' n i)
               = real i / real n * angularDistance start end'"
    and "angularDistance (arcPoint start end' n i) end'
           = (1 - real i / real n) * angularDistance start end'"
    by (simp_all add: dist f_def)
qed

lemma arcPoint_onMinorArc:
  assumes "1 \<le> n" and "i \<le> n" and "\<not> antipodal start end'"
  shows "onMinorArc start end' (arcPoint start end' n i)"
  unfolding onMinorArc_def arcPoint_distances [OF assms]
  by (simp add: algebra_simps)

text \<open>The model computes the midpoint of a quarter of the equator.\<close>

lemma not_antipodal_example: "\<not> antipodal (0, 0) (0, 90)"
  by (simp add: antipodal_def unitVector_def Let_def)

lemma centralAngle_example: "centralAngle 0 0 0 (pi / 2) = pi / 2"
proof -
  have "sqrt ((sin (pi / 4))\<^sup>2) = sin (pi / 4)"
    by (simp add: sin_45)
  moreover have "arcsin (sin (pi / 4)) = pi / 4"
    by (rule arcsin_sin) simp_all
  ultimately show ?thesis
    by (simp add: centralAngle_def)
qed

lemma arcPoint_example: "arcPoint (0, 0) (0, 90) 2 1 = (0, 45)"
  by (simp add: arcPoint_def Let_def centralAngle_example atan2_def sin_45 arctan_one)

text \<open>
  And the point of the equator at longitude \<open>-45\<close>, which is on the great circle
  through the two ends of that quarter but on its major arc, is not on the minor arc.
\<close>

lemma onMinorArc_example: "\<not> onMinorArc (0, 0) (0, 90) (0, - 45)"
proof -
  have 1: "angularDistance (0, 0) (0, - 45) = pi / 4"
  proof -
    have "angularDistance (0, 0) (0, - 45) = arccos (cos (pi / 4))"
      by (simp add: angularDistance_def unitVector_def Let_def)
    then show ?thesis
      by (simp add: arccos_cos)
  qed
  have 2: "angularDistance (0, - 45) (0, 90) = 3 * pi / 4"
  proof -
    have "cos (3 * pi / 4) = - sin (pi / 4)"
      using cos_add [of "pi / 2" "pi / 4"] by simp
    then have "angularDistance (0, - 45) (0, 90) = arccos (cos (3 * pi / 4))"
      by (simp add: angularDistance_def unitVector_def Let_def)
    then show ?thesis
      by (simp add: arccos_cos)
  qed
  have 3: "angularDistance (0, 0) (0, 90) = pi / 2"
    by (simp add: angularDistance_def unitVector_def Let_def)
  show ?thesis
    by (simp add: onMinorArc_def 1 2 3)
qed

subsection \<open>Reversal\<close>

text \<open>
  In exact arithmetic the path from \<open>b\<close> to \<open>a\<close> is the path from \<open>a\<close> to \<open>b\<close>
  reversed, point for point, whenever the central angle is not \<open>0\<close>: the two weights
  change places (for antipodal points both are quotients by \<open>sin d = 0\<close>, alike). When the central angle is \<open>0\<close> both paths are constant, one at \<open>a\<close>
  and one at \<open>b\<close>; in exact arithmetic that happens also for two different pairs that
  name one place (two longitudes at a pole, or the longitudes \<open>-180\<close> and \<open>180\<close> at
  one latitude).
\<close>

lemma centralAngle_sym: "centralAngle lat1 lng1 lat2 lng2 = centralAngle lat2 lng2 lat1 lng1"
proof -
  have "(sin ((a - b) / 2))\<^sup>2 = (sin ((b - a) / 2))\<^sup>2" for a b :: real
    by (simp add: sin_half_sq cos_diff mult.commute)
  then show ?thesis
    by (simp add: centralAngle_def mult.commute)
qed

lemma arcPoint_reverse:
  assumes "i \<le> n" "1 \<le> n"
    and "centralAngle (fst a * pi / 180) (snd a * pi / 180) (fst b * pi / 180) (snd b * pi / 180) \<noteq> 0"
  shows "arcPoint b a n i = arcPoint a b n (n - i)"
proof -
  have f: "1 - real (n - i) / real n = real i / real n" "1 - real i / real n = real (n - i) / real n"
    using assms(1,2) by (simp_all add: field_simps of_nat_diff)
  show ?thesis
    using assms(3)
    by (simp add: arcPoint_def Let_def centralAngle_sym [of "fst b * pi / 180" _ "fst a * pi / 180"] f
        add.commute)
qed

lemma rev_map_upt: "rev (map g [0 ..< Suc n]) = map (\<lambda>i. g (n - i)) [0 ..< Suc n]"
  by (rule nth_equalityI) (simp_all add: rev_nth del: upt_Suc)

lemma generateArc_reverse:
  assumes "1 \<le> n"
    and "centralAngle (fst a * pi / 180) (snd a * pi / 180) (fst b * pi / 180) (snd b * pi / 180) \<noteq> 0"
  shows "rev (generateArc a b n) = generateArc b a n"
proof -
  have "arcPoint a b n (n - i) = arcPoint b a n i" if "i \<in> set [0 ..< Suc n]" for i
    using that assms by (simp add: arcPoint_reverse del: upt_Suc)
  then have "map (\<lambda>i. arcPoint a b n (n - i)) [0 ..< Suc n] = map (arcPoint b a n) [0 ..< Suc n]"
    by (rule map_cong [OF refl])
  then show ?thesis
    by (simp add: generateArc_map rev_map_upt del: upt_Suc)
qed

end
